theory Spec2Isabelle
  imports Complex_Main
begin

section \<open>Shared data: errors, samples, frames\<close>

text \<open>
  The development follows \<^verbatim>\<open>src/model_deployment/app.py\<close>. Exceptions of the
  Python code are values of the type \<open>error\<close>; a function that may raise returns
  \<open>error + 'a\<close>, or a pair of an optional error and the state reached when the state
  written before the exception stays visible.
\<close>

datatype error =
    Empty              \<comment> \<open>\<^verbatim>\<open>queue.Empty\<close>\<close>
  | Full               \<comment> \<open>\<^verbatim>\<open>queue.Full\<close>\<close>
  | ZeroDivisionError
  | OSError            \<comment> \<open>\<^verbatim>\<open>subprocess.Popen\<close> could not spawn the tool\<close>
  | InferenceError     \<comment> \<open>any exception raised by \<^verbatim>\<open>predict_annotated\<close>\<close>

text \<open>
  A telemetry sample is the dictionary \<^verbatim>\<open>m.groupdict()\<close>: group name to matched text
  (\<open>None\<close> for a group that took no part in the match), in the order of the groups.
\<close>

type_synonym sample = "(string \<times> string option) list"

type_synonym frame = nat

section \<open>MetricsMonitor\<close>

subsection \<open>\<^verbatim>\<open>queue.Queue(maxsize)\<close>\<close>

definition get_nowait :: "'a list \<Rightarrow> error + ('a \<times> 'a list)" where
  "get_nowait q = (case q of [] \<Rightarrow> Inl Empty | x # rest \<Rightarrow> Inr (x, rest))"

definition put_nowait :: "nat \<Rightarrow> 'a list \<Rightarrow> 'a \<Rightarrow> error + 'a list" where
  "put_nowait maxsize q x =
     (if 0 < maxsize \<and> maxsize \<le> length q then Inl Full else Inr (q @ [x]))"

subsection \<open>The monitor object\<close>

text \<open>
  \<^verbatim>\<open>_queue\<close> is a \<^verbatim>\<open>queue.Queue(maxsize=1)\<close>; \<^verbatim>\<open>_thread\<close> and \<^verbatim>\<open>_proc\<close> hold the
  identifier of the thread and of the process, when there is one.
\<close>

record monitor =
  queue :: "sample list"
  proc :: "nat option"
  thread :: "nat option"
  last_raw :: string

definition queue_maxsize :: nat where
  "queue_maxsize = 1"

definition new_monitor :: monitor where
  "new_monitor = \<lparr>queue = [], proc = None, thread = None, last_raw = []\<rparr>"

text \<open>
  Lines 142 to 146: the slot is emptied (\<^verbatim>\<open>queue.Empty\<close> is swallowed), then the sample
  is put. \<^verbatim>\<open>put_nowait\<close> can raise \<^verbatim>\<open>queue.Full\<close>, which leaves the function with
  the slot as the eviction left it.
\<close>

definition evict :: "sample list \<Rightarrow> sample list" where
  "evict q = (case get_nowait q of Inl e \<Rightarrow> q | Inr (old, rest) \<Rightarrow> rest)"

definition slot_write :: "sample list \<Rightarrow> sample \<Rightarrow> error option \<times> sample list" where
  "slot_write q d =
     (let q1 = evict q
      in case put_nowait queue_maxsize q1 d of
           Inl e \<Rightarrow> (Some e, q1)
         | Inr q2 \<Rightarrow> (None, q2))"

text \<open>\<^verbatim>\<open>latest\<close>: the pair returned, and the monitor afterwards.\<close>

definition latest :: "monitor \<Rightarrow> (sample option \<times> string) \<times> monitor" where
  "latest m =
     (case get_nowait (queue m) of
        Inl e \<Rightarrow> ((None, last_raw m), m)
      | Inr (d, rest) \<Rightarrow> ((Some d, last_raw m), m\<lparr>queue := rest\<rparr>))"

subsection \<open>The reader thread\<close>

text \<open>
  White space of \<^verbatim>\<open>str.strip\<close> and of the pattern's \<^verbatim>\<open>\s\<close>, on code points below 256.
\<close>

definition is_space :: "char \<Rightarrow> bool" where
  "is_space c \<longleftrightarrow>
     (let n = (of_char c :: nat)
      in (9 \<le> n \<and> n \<le> 13) \<or> (28 \<le> n \<and> n \<le> 32) \<or> n = 133 \<or> n = 160)"

definition strip :: "string \<Rightarrow> string" where
  "strip s = rev (dropWhile is_space (rev (dropWhile is_space s)))"

text \<open>
  One iteration of the \<^verbatim>\<open>for line in self._proc.stdout\<close> loop. \<open>search\<close> is
  \<^verbatim>\<open>self._pattern.search\<close> followed by \<^verbatim>\<open>groupdict\<close>: the pattern is a parameter of the
  constructor. A match object is always true, so \<^verbatim>\<open>if m\<close> asks whether there is one.
\<close>

definition reader_line ::
  "(string \<Rightarrow> sample option) \<Rightarrow> monitor \<Rightarrow> string \<Rightarrow> error option \<times> monitor" where
  "reader_line search m line =
     (let m1 = m\<lparr>last_raw := strip line\<rparr>
      in case search line of
           None \<Rightarrow> (None, m1)
         | Some d \<Rightarrow>
             (case slot_write (queue m1) d of (r, q) \<Rightarrow> (r, m1\<lparr>queue := q\<rparr>)))"

fun reader_lines ::
  "(string \<Rightarrow> sample option) \<Rightarrow> monitor \<Rightarrow> string list \<Rightarrow> error option \<times> monitor" where
  "reader_lines search m [] = (None, m)"
| "reader_lines search m (line # rest) =
     (case reader_line search m line of
        (Some e, m') \<Rightarrow> (Some e, m')
      | (None, m') \<Rightarrow> reader_lines search m' rest)"

text \<open>
  What the thread finds outside the program: the answer of \<^verbatim>\<open>shutil.which\<close>, which paths
  exist, whether the process can be spawned and under which identifier, and the lines the
  process prints.
\<close>

record os_env =
  which_tegrastats :: "string option"
  path_exists :: "string \<Rightarrow> bool"
  popen :: "string \<Rightarrow> error + nat"
  stdout_lines :: "string list"

text \<open>
  The body of the \<^verbatim>\<open>try\<close> block of \<^verbatim>\<open>_reader\<close>. \<^verbatim>\<open>a or b\<close> takes \<^verbatim>\<open>b\<close> when
  \<^verbatim>\<open>a\<close> is \<^verbatim>\<open>None\<close> or the empty string.
\<close>

definition reader_body ::
  "os_env \<Rightarrow> (string \<Rightarrow> sample option) \<Rightarrow> monitor \<Rightarrow> error option \<times> monitor" where
  "reader_body env search m =
     (let ts_path = (case which_tegrastats env of
                       None \<Rightarrow> ''/usr/bin/tegrastats''
                     | Some p \<Rightarrow> if p = [] then ''/usr/bin/tegrastats'' else p)
      in if \<not> path_exists env ts_path then (None, m)
         else case popen env ts_path of
                Inl e \<Rightarrow> (Some e, m)
              | Inr pid \<Rightarrow> reader_lines search (m\<lparr>proc := Some pid\<rparr>) (stdout_lines env))"

text \<open>\<^verbatim>\<open>_reader\<close>: \<^verbatim>\<open>except Exception: pass\<close> drops whatever the body raised.\<close>

definition reader :: "os_env \<Rightarrow> (string \<Rightarrow> sample option) \<Rightarrow> monitor \<Rightarrow> monitor" where
  "reader env search m = snd (reader_body env search m)"

definition tool_absent :: "os_env \<Rightarrow> bool" where
  "tool_absent env \<longleftrightarrow>
     (case which_tegrastats env of
        None \<Rightarrow> \<not> path_exists env ''/usr/bin/tegrastats''
      | Some p \<Rightarrow> \<not> path_exists env (if p = [] then ''/usr/bin/tegrastats'' else p))"

subsection \<open>\<^verbatim>\<open>start\<close>\<close>

text \<open>
  The threads launched so far, each with what \<^verbatim>\<open>is_alive\<close> answers for it. A thread
  is alive from \<^verbatim>\<open>Thread.start\<close> until its target returns.
\<close>

record threads =
  alive :: "bool list"

definition is_alive :: "threads \<Rightarrow> nat \<Rightarrow> bool" where
  "is_alive w t \<longleftrightarrow> t < length (alive w) \<and> alive w ! t"

definition thread_exit :: "threads \<Rightarrow> nat \<Rightarrow> threads" where
  "thread_exit w t = w\<lparr>alive := (alive w)[t := False]\<rparr>"

definition task_active :: "monitor \<Rightarrow> threads \<Rightarrow> bool" where
  "task_active m w \<longleftrightarrow> (case thread m of None \<Rightarrow> False | Some t \<Rightarrow> is_alive w t)"

definition start :: "monitor \<Rightarrow> threads \<Rightarrow> monitor \<times> threads" where
  "start m w =
     (if thread m = None \<or> \<not> is_alive w (the (thread m))
      then (m\<lparr>thread := Some (length (alive w))\<rparr>, w\<lparr>alive := alive w @ [True]\<rparr>)
      else (m, w))"

section \<open>VideoReceiver\<close>

text \<open>
  An OpenCV capture: the source it was built from, the frames it will still deliver,
  whether it is open, and the buffer size asked for. \<open>backend\<close> is the world behind
  \<^verbatim>\<open>cv2.VideoCapture\<close>: which sources open (and with which frames), and whether the
  buffer-size property can be set (\<^verbatim>\<open>cap.set\<close> raising is swallowed by the code).
\<close>

record cap =
  cap_src :: string
  cap_frames :: "frame list"
  cap_opened :: bool
  cap_bufsize :: "nat option"

record backend =
  can_open :: "string \<Rightarrow> frame list option"
  accepts_hint :: "string \<Rightarrow> bool"

definition VideoCapture :: "backend \<Rightarrow> string \<Rightarrow> cap" where
  "VideoCapture be src =
     (case can_open be src of
        None \<Rightarrow> \<lparr>cap_src = src, cap_frames = [], cap_opened = False, cap_bufsize = None\<rparr>
      | Some fs \<Rightarrow> \<lparr>cap_src = src, cap_frames = fs, cap_opened = True, cap_bufsize = None\<rparr>)"

definition isOpened :: "cap \<Rightarrow> bool" where
  "isOpened c = cap_opened c"


definition set_low_buffer :: "backend \<Rightarrow> cap \<Rightarrow> cap" where
  "set_low_buffer be c = (if accepts_hint be (cap_src c) then c\<lparr>cap_bufsize := Some 1\<rparr> else c)"

text \<open>\<^verbatim>\<open>cap.read()\<close>: a released or exhausted capture answers \<^verbatim>\<open>(False, None)\<close>.\<close>

definition cap_read :: "cap \<Rightarrow> frame option \<times> cap" where
  "cap_read c =
     (if \<not> cap_opened c then (None, c)
      else case cap_frames c of
             [] \<Rightarrow> (None, c)
           | f # rest \<Rightarrow> (Some f, c\<lparr>cap_frames := rest\<rparr>))"


subsection \<open>The two URL variants\<close>

definition digit_char :: "nat \<Rightarrow> char" where
  "digit_char d = char_of (48 + d)"

fun str_nat :: "nat \<Rightarrow> string" where
  "str_nat n = (if n < 10 then [digit_char n] else str_nat (n div 10) @ [digit_char (n mod 10)])"

definition str_int :: "int \<Rightarrow> string" where
  "str_int i = (if i < 0 then CHR ''-'' # str_nat (nat (- i)) else str_nat (nat i))"

definition FFMPEG_URL_BIND_ANY :: "int \<Rightarrow> string" where
  "FFMPEG_URL_BIND_ANY port = ''udp://@:'' @ str_int port"

definition FFMPEG_URL_BIND_ALL :: "int \<Rightarrow> string" where
  "FFMPEG_URL_BIND_ALL port =
     ''udp://0.0.0.0:'' @ str_int port
       @ ''?fifo_size=100000&overrun_nonfatal=1&buffer_size=0&timeout=500000''"

definition candidates :: "int \<Rightarrow> string list" where
  "candidates port = [FFMPEG_URL_BIND_ANY port, FFMPEG_URL_BIND_ALL port]"

text \<open>
  \<^verbatim>\<open>open_udp_ffmpeg\<close>: the pair it returns, and the URLs handed to
  \<^verbatim>\<open>cv2.VideoCapture\<close>, in order.
\<close>

definition open_udp_ffmpeg ::
  "backend \<Rightarrow> int \<Rightarrow> (cap option \<times> string option) \<times> string list" where
  "open_udp_ffmpeg be port =
     (let url1 = FFMPEG_URL_BIND_ANY port;
          cap1 = VideoCapture be url1
      in if isOpened cap1 then ((Some (set_low_buffer be cap1), Some url1), [url1])
         else
           let url2 = FFMPEG_URL_BIND_ALL port;
               cap2 = VideoCapture be url2
           in if isOpened cap2 then ((Some (set_low_buffer be cap2), Some url2), [url1, url2])
              else ((None, None), [url1, url2]))"

section \<open>InferenceLoop\<close>

subsection \<open>Rendering the metrics\<close>





subsection \<open>The loop\<close>











section \<open>The routes of \<^verbatim>\<open>main\<close>\<close>






section \<open>The tegrastats line pattern\<close>

subsection \<open>The fragment of \<^verbatim>\<open>re\<close> the pattern is written in\<close>

text \<open>
  Single characters: a literal (compared without case, for \<^verbatim>\<open>re.IGNORECASE\<close>; the
  pattern's letters are ASCII), \<^verbatim>\<open>.\<close> (anything but a newline), \<^verbatim>\<open>\s\<close>, \<^verbatim>\<open>\d\<close> and a
  bracketed set.
\<close>

definition is_digit :: "char \<Rightarrow> bool" where
  "is_digit c \<longleftrightarrow> (let n = (of_char c :: nat) in 48 \<le> n \<and> n \<le> 57)"

definition lower :: "char \<Rightarrow> char" where
  "lower c =
     (let n = (of_char c :: nat) in if 65 \<le> n \<and> n \<le> 90 then char_of (n + 32) else c)"

datatype atom = Chr char | Dot | Space | Digit | OneOf "atom list"

fun atom_ok :: "atom \<Rightarrow> char \<Rightarrow> bool" where
  "atom_ok (Chr a) c = (lower c = lower a)"
| "atom_ok Dot c = (c \<noteq> CHR 0x0A)"
| "atom_ok Space c = is_space c"
| "atom_ok Digit c = is_digit c"
| "atom_ok (OneOf as) c = list_ex (\<lambda>a. atom_ok a c) as"

text \<open>
  Expressions: the empty one, one character, \<^verbatim>\<open>a+\<close>, \<^verbatim>\<open>a+?\<close> and \<^verbatim>\<open>a*?\<close> on a
  single character, concatenation, and a named group.
\<close>

datatype rx =
    Eps
  | Atom atom
  | Plus atom
  | PlusLazy atom
  | StarLazy atom
  | Then rx rx
  | Group string rx

text \<open>
  The backtracking matcher, as the list of all ways to match at the start of the text,
  in the order in which backtracking reaches them: each is the text left over and the
  groups captured. \<open>star_lazy a s\<close> lists what is left after zero, one, two ... characters
  of \<open>a\<close>; a lazy quantifier tries them in this order, a greedy one in the reverse order.
\<close>

fun star_lazy :: "atom \<Rightarrow> string \<Rightarrow> string list" where
  "star_lazy a [] = [[]]"
| "star_lazy a (c # cs) = (c # cs) # (if atom_ok a c then star_lazy a cs else [])"

definition set_group :: "sample \<Rightarrow> string \<Rightarrow> string \<Rightarrow> sample" where
  "set_group g n v = map (\<lambda>(k, x). if k = n then (k, Some v) else (k, x)) g"

fun ms :: "rx \<Rightarrow> string \<times> sample \<Rightarrow> (string \<times> sample) list" where
  "ms Eps st = [st]"
| "ms (Atom a) (s, g) =
     (case s of [] \<Rightarrow> [] | c # cs \<Rightarrow> if atom_ok a c then [(cs, g)] else [])"
| "ms (Plus a) (s, g) = map (\<lambda>r. (r, g)) (rev (tl (star_lazy a s)))"
| "ms (PlusLazy a) (s, g) = map (\<lambda>r. (r, g)) (tl (star_lazy a s))"
| "ms (StarLazy a) (s, g) = map (\<lambda>r. (r, g)) (star_lazy a s)"
| "ms (Then r1 r2) st = concat (map (ms r2) (ms r1 st))"
| "ms (Group n r) (s, g) =
     map (\<lambda>(s', g'). (s', set_group g' n (take (length s - length s') s))) (ms r (s, g))"

text \<open>
  \<^verbatim>\<open>pattern.search(text)\<close> followed by \<^verbatim>\<open>groupdict()\<close>: the first way to match at the
  leftmost position that has one. \<open>g\<close> is the dictionary with every group unset.
\<close>

fun search_from :: "rx \<Rightarrow> sample \<Rightarrow> string \<Rightarrow> sample option" where
  "search_from r g [] = (case ms r ([], g) of [] \<Rightarrow> None | (s', d) # rest \<Rightarrow> Some d)"
| "search_from r g (c # cs) =
     (case ms r (c # cs, g) of [] \<Rightarrow> search_from r g cs | (s', d) # rest \<Rightarrow> Some d)"

text \<open>The texts an expression matches as a whole, stated without reference to the matcher.\<close>

fun lang :: "rx \<Rightarrow> string \<Rightarrow> bool" where
  "lang Eps s = (s = [])"
| "lang (Atom a) s = (case s of [c] \<Rightarrow> atom_ok a c | _ \<Rightarrow> False)"
| "lang (Plus a) s = (s \<noteq> [] \<and> list_all (atom_ok a) s)"
| "lang (PlusLazy a) s = (s \<noteq> [] \<and> list_all (atom_ok a) s)"
| "lang (StarLazy a) s = list_all (atom_ok a) s"
| "lang (Then r1 r2) s =
     list_ex (\<lambda>i. if lang r1 (take i s) then lang r2 (drop i s) else False)
       [0..<Suc (length s)]"
| "lang (Group n r) s = lang r s"

fun groups :: "rx \<Rightarrow> string set" where
  "groups (Then r1 r2) = groups r1 \<union> groups r2"
| "groups (Group n r) = insert n (groups r)"
| "groups r = {}"

subsection \<open>\<^verbatim>\<open>TEGRAPATTERN\<close>\<close>

definition lit :: "string \<Rightarrow> rx" where
  "lit s = foldr (\<lambda>c r. Then (Atom (Chr c)) r) s Eps"

definition cat :: "rx list \<Rightarrow> rx" where
  "cat rs = foldr Then rs Eps"

text \<open>The five lines of the pattern, each without its trailing or leading \<^verbatim>\<open>.*?\<close>.\<close>

definition seg_ram :: rx where
  "seg_ram = cat [lit ''RAM'', Plus Space, Group ''ram_used'' (Plus Digit), lit ''/'',
                  Group ''ram_total'' (Plus Digit), lit ''MB'']"

definition seg_cpu :: rx where
  "seg_cpu = cat [lit ''CPU'', Plus Space, lit ''['', Group ''cpu'' (PlusLazy Dot), lit '']'']"

definition seg_emc :: rx where
  "seg_emc = cat [lit ''EMC'', Atom (OneOf [Chr CHR ''_'', Chr CHR '' '']), lit ''FREQ'',
                  Plus Space, Group ''emc_pct'' (Plus Digit), lit ''%@'',
                  Group ''emc_mhz'' (Plus Digit)]"

definition seg_gr3d :: rx where
  "seg_gr3d = cat [lit ''GR3D'', Atom (OneOf [Chr CHR ''_'', Chr CHR '' '']), lit ''FREQ'',
                   Plus Space, Group ''gr3d_pct'' (Plus Digit), lit ''%@'',
                   Group ''gr3d_mhz'' (Plus Digit)]"

definition seg_gpu :: rx where
  "seg_gpu = cat [lit ''GPU@'', Group ''gpu_temp'' (Plus (OneOf [Digit, Chr CHR ''.''])),
                  lit ''C'']"

definition segments :: "rx list" where
  "segments = [seg_ram, seg_cpu, seg_emc, seg_gr3d, seg_gpu]"

definition TEGRAPATTERN :: rx where
  "TEGRAPATTERN =
     cat [seg_ram, StarLazy Dot, seg_cpu, StarLazy Dot, seg_emc, StarLazy Dot,
          seg_gr3d, StarLazy Dot, StarLazy Dot, seg_gpu]"

definition group_names :: "string list" where
  "group_names = [''ram_used'', ''ram_total'', ''cpu'', ''emc_pct'', ''emc_mhz'',
                  ''gr3d_pct'', ''gr3d_mhz'', ''gpu_temp'']"

definition unset_groups :: sample where
  "unset_groups = map (\<lambda>n. (n, None)) group_names"

text \<open>Lines 139 to 141: \<^verbatim>\<open>self._pattern.search(line)\<close>, then \<^verbatim>\<open>m.groupdict()\<close>.\<close>

definition parse_line :: "string \<Rightarrow> sample option" where
  "parse_line line = search_from TEGRAPATTERN unset_groups line"

text \<open>A sample is populated when no group is left unset.\<close>

definition populated :: "sample \<Rightarrow> bool" where
  "populated d \<longleftrightarrow> map fst d = group_names \<and> list_all (\<lambda>(k, v). v \<noteq> None) d"

section \<open>Invariants of the loop\<close>






section \<open>Concrete inputs\<close>







text \<open>A system without tegrastats, and a loop whose background thread runs there.\<close>

definition no_tool :: os_env where
  "no_tool = \<lparr>which_tegrastats = None, path_exists = (\<lambda>p. False),
              popen = (\<lambda>p. Inl OSError), stdout_lines = [''RAM 1/2MB'']\<rparr>"


text \<open>A backend on which only the second URL variant opens.\<close>

definition only_bind_all :: backend where
  "only_bind_all =
     \<lparr>can_open = (\<lambda>u. if take 7 u = ''udp://@'' then None else Some [1, 2, 3]),
      accepts_hint = (\<lambda>u. True)\<rparr>"

section \<open>The freshness slot\<close>

lemma get_nowait_simps:
  "get_nowait [] = Inl Empty" "get_nowait (x # xs) = Inr (x, xs)"
  by (simp_all add: get_nowait_def)

lemma evict_short: "length q \<le> 1 \<Longrightarrow> evict q = []"
  by (cases q) (simp_all add: evict_def get_nowait_def)

lemma slot_write_short: "length q \<le> 1 \<Longrightarrow> slot_write q d = (None, [d])"
  by (simp add: slot_write_def evict_short put_nowait_def queue_maxsize_def)

lemma latest_single: "latest (m\<lparr>queue := [d]\<rparr>) = ((Some d, last_raw m), m\<lparr>queue := []\<rparr>)"
  by (simp add: latest_def get_nowait_def)

lemma latest_twice:
  "length (queue m) \<le> 1 \<Longrightarrow> fst (fst (latest (snd (latest m)))) = None"
  by (cases "queue m") (simp_all add: latest_def get_nowait_def)

lemma latest_keeps_bound: "length (queue m) \<le> 1 \<Longrightarrow> length (queue (snd (latest m))) \<le> 1"
  by (cases "queue m") (simp_all add: latest_def get_nowait_def)

lemma reader_line_write:
  "length (queue m) \<le> 1 \<Longrightarrow> search line = Some d \<Longrightarrow>
     reader_line search m line = (None, m\<lparr>last_raw := strip line, queue := [d]\<rparr>)"
  by (simp add: reader_line_def Let_def slot_write_short)

text \<open>
  Claim C2. The queue of the monitor holds at most one sample. From any such state:
  writing \<open>s1\<close> succeeds and leaves exactly \<open>s1\<close>; writing \<open>s2\<close> after it, with no read
  in between, succeeds and leaves exactly \<open>s2\<close>, the same slot as if \<open>s1\<close> had never been
  written; the next \<^verbatim>\<open>latest\<close> returns \<open>s2\<close> and empties the slot; and after a
  \<^verbatim>\<open>latest\<close> that returned a sample, a second \<^verbatim>\<open>latest\<close> with no write in between
  returns no sample. \<^verbatim>\<open>latest\<close> keeps the bound on the queue, and a line of the reader
  that matches is written without an exception, whatever the slot held.
\<close>

theorem freshness_slot:
  assumes "length (queue m) \<le> queue_maxsize"
  shows "slot_write (queue m) s1 = (None, [s1])
       \<and> slot_write (snd (slot_write (queue m) s1)) s2 = (None, [s2])
       \<and> slot_write (snd (slot_write (queue m) s1)) s2 = slot_write (queue m) s2
       \<and> latest (m\<lparr>queue := snd (slot_write (snd (slot_write (queue m) s1)) s2)\<rparr>)
            = ((Some s2, last_raw m), m\<lparr>queue := []\<rparr>)
       \<and> (\<forall>d. fst (fst (latest m)) = Some d \<longrightarrow> fst (fst (latest (snd (latest m)))) = None)
       \<and> length (queue (snd (latest m))) \<le> queue_maxsize
       \<and> (\<forall>d. search line = Some d \<longrightarrow>
            reader_line search m line = (None, m\<lparr>last_raw := strip line, queue := [d]\<rparr>))"
  using assms latest_keeps_bound [of m]
  by (simp add: queue_maxsize_def slot_write_short latest_single latest_twice
        reader_line_write)

theorem freshness_slot_witness:
  "length (queue (new_monitor\<lparr>queue := [[(''cpu'', Some ''a'')]]\<rparr>)) \<le> queue_maxsize
   \<and> slot_write [[(''cpu'', Some ''a'')]] [(''cpu'', Some ''b'')] = (None, [[(''cpu'', Some ''b'')]])
   \<and> fst (fst (latest (new_monitor\<lparr>queue := [[(''cpu'', Some ''a'')]]\<rparr>))) = Some [(''cpu'', Some ''a'')]
   \<and> fst (fst (latest (snd (latest (new_monitor\<lparr>queue := [[(''cpu'', Some ''a'')]]\<rparr>))))) = None
   \<and> reader_line (\<lambda>l. Some [(''cpu'', Some ''b'')]) (new_monitor\<lparr>queue := [[(''cpu'', Some ''a'')]]\<rparr>) ''x''
       = (None, new_monitor\<lparr>queue := [[(''cpu'', Some ''b'')]], last_raw := ''x''\<rparr>)"
proof -
  let ?m = "new_monitor\<lparr>queue := [[(''cpu'', Some ''a'')]]\<rparr>"
  have h: "length (queue ?m) \<le> queue_maxsize"
    by (simp add: queue_maxsize_def)
  have r: "fst (fst (latest ?m)) = Some [(''cpu'', Some ''a'')]"
    by (simp add: latest_def get_nowait_def)
  have s: "strip ''x'' = ''x''"
    by (simp add: strip_def is_space_def)
  from freshness_slot [OF h, of "[(''cpu'', Some ''b'')]" "[(''cpu'', Some ''c'')]"
         "\<lambda>l. Some [(''cpu'', Some ''b'')]" "''x''"] h r s
  show ?thesis by simp
qed

section \<open>Starting the reader\<close>

lemma start_active: "task_active m w \<Longrightarrow> start m w = (m, w)"
  by (auto simp: task_active_def start_def split: option.splits)

lemma start_inactive:
  "\<not> task_active m w \<Longrightarrow>
     start m w = (m\<lparr>thread := Some (length (alive w))\<rparr>, w\<lparr>alive := alive w @ [True]\<rparr>)"
  by (auto simp: task_active_def start_def split: option.splits)

lemma start_makes_active: "start m w = (m', w') \<Longrightarrow> task_active m' w'"
  by (auto simp: task_active_def start_def is_alive_def nth_append split: option.splits if_splits)

lemma reader_body_absent: "tool_absent env \<Longrightarrow> reader_body env search m = (None, m)"
  by (auto simp: tool_absent_def reader_body_def split: option.splits if_splits)


text \<open>
  Claim C7. When the thread of the monitor is alive, \<^verbatim>\<open>start\<close> changes neither the
  monitor nor the set of threads. When there is no thread or it has ended, \<^verbatim>\<open>start\<close>
  launches exactly one new thread, alive, and records it. After \<^verbatim>\<open>start\<close> the task is
  active, so calling it again at once does nothing. With the tool absent the body of the
  thread ends without an exception and without touching the monitor.
\<close>

theorem start_idempotent:
  "(task_active m w \<longrightarrow> start m w = (m, w))
   \<and> (\<not> task_active m w \<longrightarrow>
        start m w = (m\<lparr>thread := Some (length (alive w))\<rparr>, w\<lparr>alive := alive w @ [True]\<rparr>))
   \<and> task_active (fst (start m w)) (snd (start m w))
   \<and> start (fst (start m w)) (snd (start m w)) = start m w
   \<and> (tool_absent env \<longrightarrow> reader_body env search m = (None, m) \<and> reader env search m = m)"
proof -
  have a: "task_active (fst (start m w)) (snd (start m w))"
    by (rule start_makes_active) simp
  show ?thesis
    using a start_active [OF a]
    by (simp add: start_active start_inactive reader_body_absent reader_def)
qed

theorem start_idempotent_witness:
  "\<not> task_active new_monitor \<lparr>alive = []\<rparr>
   \<and> start new_monitor \<lparr>alive = []\<rparr> = (new_monitor\<lparr>thread := Some 0\<rparr>, \<lparr>alive = [True]\<rparr>)
   \<and> task_active (new_monitor\<lparr>thread := Some 0\<rparr>) \<lparr>alive = [True]\<rparr>
   \<and> start (new_monitor\<lparr>thread := Some 0\<rparr>) \<lparr>alive = [True]\<rparr>
        = (new_monitor\<lparr>thread := Some 0\<rparr>, \<lparr>alive = [True]\<rparr>)
   \<and> tool_absent no_tool
   \<and> reader no_tool (\<lambda>l. None) new_monitor = new_monitor"
proof -
  have n: "\<not> task_active new_monitor \<lparr>alive = []\<rparr>"
    by (simp add: task_active_def new_monitor_def)
  have y: "task_active (new_monitor\<lparr>thread := Some 0\<rparr>) \<lparr>alive = [True]\<rparr>"
    by (simp add: task_active_def is_alive_def)
  have t: "tool_absent no_tool"
    by (simp add: tool_absent_def no_tool_def)
  from start_idempotent [of new_monitor "\<lparr>alive = []\<rparr>" no_tool "\<lambda>l. None"]
       start_idempotent [of "new_monitor\<lparr>thread := Some 0\<rparr>" "\<lparr>alive = [True]\<rparr>" no_tool "\<lambda>l. None"]
       n y t
  show ?thesis by simp
qed

section \<open>Opening the UDP source\<close>

lemma set_low_buffer_keeps:
  "cap_src (set_low_buffer be c) = cap_src c"
  "cap_opened (set_low_buffer be c) = cap_opened c"
  "cap_frames (set_low_buffer be c) = cap_frames c"
  by (simp_all add: set_low_buffer_def)

lemma VideoCapture_src: "cap_src (VideoCapture be u) = u"
  by (simp add: VideoCapture_def split: option.splits)

lemma VideoCapture_opened: "cap_opened (VideoCapture be u) \<longleftrightarrow> can_open be u \<noteq> None"
  by (simp add: VideoCapture_def split: option.splits)

lemma open_udp_first:
  "can_open be (FFMPEG_URL_BIND_ANY port) \<noteq> None \<Longrightarrow>
     open_udp_ffmpeg be port =
       ((Some (set_low_buffer be (VideoCapture be (FFMPEG_URL_BIND_ANY port))),
         Some (FFMPEG_URL_BIND_ANY port)), [FFMPEG_URL_BIND_ANY port])"
  by (simp add: open_udp_ffmpeg_def Let_def isOpened_def VideoCapture_opened)

lemma open_udp_second:
  "can_open be (FFMPEG_URL_BIND_ANY port) = None \<Longrightarrow>
   can_open be (FFMPEG_URL_BIND_ALL port) \<noteq> None \<Longrightarrow>
     open_udp_ffmpeg be port =
       ((Some (set_low_buffer be (VideoCapture be (FFMPEG_URL_BIND_ALL port))),
         Some (FFMPEG_URL_BIND_ALL port)), [FFMPEG_URL_BIND_ANY port, FFMPEG_URL_BIND_ALL port])"
  by (simp add: open_udp_ffmpeg_def Let_def isOpened_def VideoCapture_opened)

lemma open_udp_none:
  "can_open be (FFMPEG_URL_BIND_ANY port) = None \<Longrightarrow>
   can_open be (FFMPEG_URL_BIND_ALL port) = None \<Longrightarrow>
     open_udp_ffmpeg be port =
       ((None, None), [FFMPEG_URL_BIND_ANY port, FFMPEG_URL_BIND_ALL port])"
  by (simp add: open_udp_ffmpeg_def Let_def isOpened_def VideoCapture_opened)



text \<open>
  Claim C10. For every port and every backend, \<^verbatim>\<open>open_udp_ffmpeg\<close> returns either an
  open capture together with the URL it was built from, or \<^verbatim>\<open>(None, None)\<close>.
\<close>

theorem open_udp_consistent_pair:
  "(\<exists>c u. fst (open_udp_ffmpeg be port) = (Some c, Some u) \<and> isOpened c \<and> cap_src c = u)
   \<or> fst (open_udp_ffmpeg be port) = (None, None)"
proof (cases "can_open be (FFMPEG_URL_BIND_ANY port) = None")
  case False
  then show ?thesis
    by (simp add: open_udp_first isOpened_def set_low_buffer_keeps VideoCapture_src
          VideoCapture_opened)
next
  case first: True
  show ?thesis
  proof (cases "can_open be (FFMPEG_URL_BIND_ALL port) = None")
    case True
    with first show ?thesis by (simp add: open_udp_none)
  next
    case False
    with first show ?thesis
      by (simp add: open_udp_second isOpened_def set_low_buffer_keeps VideoCapture_src
            VideoCapture_opened)
  qed
qed

text \<open>
  Claim C4. The candidates for a port are the bind-to-any URL, then the bind-to-all URL
  with its buffering and timeout options. When the first \<open>k\<close> candidates do not open and
  candidate \<open>k\<close> does, \<^verbatim>\<open>open_udp_ffmpeg\<close> returns an open capture built from candidate
  \<open>k\<close> together with that URL, and the URLs it tried are exactly the candidates up to and
  including \<open>k\<close>.
\<close>

theorem open_udp_first_success:
  assumes "k < length (candidates port)"
    and "\<forall>i<k. can_open be (candidates port ! i) = None"
    and "can_open be (candidates port ! k) \<noteq> None"
  shows "candidates port =
           [''udp://@:'' @ str_int port,
            ''udp://0.0.0.0:'' @ str_int port
              @ ''?fifo_size=100000&overrun_nonfatal=1&buffer_size=0&timeout=500000'']
       \<and> (\<exists>c. fst (open_udp_ffmpeg be port) = (Some c, Some (candidates port ! k))
              \<and> isOpened c \<and> cap_src c = candidates port ! k)
       \<and> snd (open_udp_ffmpeg be port) = take (Suc k) (candidates port)"
proof -
  have cands: "candidates port = [FFMPEG_URL_BIND_ANY port, FFMPEG_URL_BIND_ALL port]"
    by (simp add: candidates_def)
  from assms(1) have "k = 0 \<or> k = 1"
    by (auto simp: cands)
  then show ?thesis
  proof
    assume k: "k = 0"
    with assms(3) have "can_open be (FFMPEG_URL_BIND_ANY port) \<noteq> None"
      by (simp add: cands)
    then show ?thesis
      by (simp add: k open_udp_first isOpened_def set_low_buffer_keeps VideoCapture_src
            VideoCapture_opened cands FFMPEG_URL_BIND_ANY_def FFMPEG_URL_BIND_ALL_def)
  next
    assume k: "k = 1"
    with assms(2) have a: "can_open be (FFMPEG_URL_BIND_ANY port) = None"
      by (simp add: cands)
    from k assms(3) have b: "can_open be (FFMPEG_URL_BIND_ALL port) \<noteq> None"
      by (simp add: cands)
    from a b show ?thesis
      by (simp add: k open_udp_second isOpened_def set_low_buffer_keeps VideoCapture_src
            VideoCapture_opened cands FFMPEG_URL_BIND_ANY_def FFMPEG_URL_BIND_ALL_def)
  qed
qed

theorem open_udp_first_success_witness:
  "(1::nat) < length (candidates 5000)
   \<and> can_open only_bind_all (candidates 5000 ! 0) = None
   \<and> can_open only_bind_all (candidates 5000 ! 1) \<noteq> None
   \<and> snd (fst (open_udp_ffmpeg only_bind_all 5000)) = Some (FFMPEG_URL_BIND_ALL 5000)
   \<and> snd (open_udp_ffmpeg only_bind_all 5000)
       = [FFMPEG_URL_BIND_ANY 5000, FFMPEG_URL_BIND_ALL 5000]"
proof -
  have c: "candidates 5000 = [FFMPEG_URL_BIND_ANY 5000, FFMPEG_URL_BIND_ALL 5000]"
    by (simp add: candidates_def)
  have h1: "(1::nat) < length (candidates 5000)"
    by (simp add: c)
  have h2: "\<forall>i<1. can_open only_bind_all (candidates 5000 ! i) = None"
    by (simp add: c only_bind_all_def FFMPEG_URL_BIND_ANY_def)
  have h3: "can_open only_bind_all (candidates 5000 ! 1) \<noteq> None"
    by (simp add: c only_bind_all_def FFMPEG_URL_BIND_ALL_def)
  from open_udp_first_success [OF h1 h2 h3] h1 h2 h3 show ?thesis
    by (auto simp: c)
qed

section \<open>One iteration of the loop\<close>







section \<open>Emission times\<close>








section \<open>The whole run\<close>


















section \<open>Releasing the capture\<close>










section \<open>Running without the tool\<close>







section \<open>The line parser\<close>

lemma star_lazy_sound:
  "r \<in> set (star_lazy a s) \<Longrightarrow> \<exists>u. s = u @ r \<and> list_all (atom_ok a) u"
proof (induction s)
  case Nil
  then show ?case by simp
next
  case (Cons c cs)
  show ?case
  proof (cases "r = c # cs")
    case True
    then show ?thesis by simp
  next
    case False
    with Cons.prems have ok: "atom_ok a c" and "r \<in> set (star_lazy a cs)"
      by (auto split: if_splits)
    with Cons.IH obtain u where "cs = u @ r" "list_all (atom_ok a) u"
      by blast
    with ok have "c # cs = (c # u) @ r \<and> list_all (atom_ok a) (c # u)"
      by simp
    then show ?thesis by blast
  qed
qed

lemma tl_star_lazy_sound:
  assumes "r \<in> set (tl (star_lazy a s))"
  shows "\<exists>u. s = u @ r \<and> u \<noteq> [] \<and> list_all (atom_ok a) u"
proof (cases s)
  case Nil
  with assms show ?thesis by simp
next
  case (Cons c cs)
  with assms have ok: "atom_ok a c" and "r \<in> set (star_lazy a cs)"
    by (auto split: if_splits)
  with star_lazy_sound obtain u where "cs = u @ r" "list_all (atom_ok a) u"
    by blast
  with ok Cons have "s = (c # u) @ r \<and> c # u \<noteq> [] \<and> list_all (atom_ok a) (c # u)"
    by simp
  then show ?thesis by blast
qed

lemma star_lazy_first: "rest \<in> set (star_lazy a rest)"
  by (cases rest) simp_all

lemma star_lazy_complete:
  "list_all (atom_ok a) u \<Longrightarrow> rest \<in> set (star_lazy a (u @ rest))"
  by (induction u) (simp_all add: star_lazy_first)

lemma tl_star_lazy_complete:
  "u \<noteq> [] \<Longrightarrow> list_all (atom_ok a) u \<Longrightarrow> rest \<in> set (tl (star_lazy a (u @ rest)))"
  by (cases u) (simp_all add: star_lazy_complete)

lemma lang_Then:
  "lang (Then r1 r2) s \<longleftrightarrow> (\<exists>u v. s = u @ v \<and> lang r1 u \<and> lang r2 v)"
proof
  assume "lang (Then r1 r2) s"
  then obtain i where
    "if lang r1 (take i s) then lang r2 (drop i s) else False"
    unfolding lang.simps list_ex_iff by blast
  then have "lang r1 (take i s)" "lang r2 (drop i s)"
    by (simp_all split: if_splits)
  moreover have "s = take i s @ drop i s"
    by simp
  ultimately show "\<exists>u v. s = u @ v \<and> lang r1 u \<and> lang r2 v"
    by blast
next
  assume "\<exists>u v. s = u @ v \<and> lang r1 u \<and> lang r2 v"
  then obtain u v where s: "s = u @ v" and l: "lang r1 u" "lang r2 v"
    by blast
  have "length u \<in> set [0..<Suc (length s)]"
    by (simp add: s)
  moreover from l have "lang r1 (take (length u) s) \<and> lang r2 (drop (length u) s)"
    by (simp add: s)
  ultimately show "lang (Then r1 r2) s"
    unfolding lang.simps list_ex_iff by (intro bexI [of _ "length u"]) simp_all
qed

lemma ms_sound:
  "(s', g') \<in> set (ms r (s, g)) \<Longrightarrow> \<exists>u. s = u @ s' \<and> lang r u"
proof (induction r arbitrary: s g s' g')
  case Eps
  then show ?case by simp
next
  case (Atom a)
  then show ?case by (cases s) (auto split: if_splits)
next
  case (Plus a)
  then have "s' \<in> set (tl (star_lazy a s))"
    by auto
  from tl_star_lazy_sound [OF this] show ?case by auto
next
  case (PlusLazy a)
  then have "s' \<in> set (tl (star_lazy a s))"
    by auto
  from tl_star_lazy_sound [OF this] show ?case by auto
next
  case (StarLazy a)
  then have "s' \<in> set (star_lazy a s)"
    by auto
  from star_lazy_sound [OF this] show ?case by auto
next
  case (Then r1 r2)
  from Then.prems obtain s1 g1 where
    m1: "(s1, g1) \<in> set (ms r1 (s, g))" and m2: "(s', g') \<in> set (ms r2 (s1, g1))"
    by auto
  from Then.IH(1) [OF m1] obtain u where u: "s = u @ s1" "lang r1 u"
    by blast
  from Then.IH(2) [OF m2] obtain v where v: "s1 = v @ s'" "lang r2 v"
    by blast
  from u v have "s = (u @ v) @ s' \<and> lang (Then r1 r2) (u @ v)"
    unfolding lang_Then by auto
  then show ?case by blast
next
  case (Group n r)
  from Group.prems obtain g0 where "(s', g0) \<in> set (ms r (s, g))"
    by auto
  from Group.IH [OF this] show ?case by simp
qed

lemma ms_complete:
  "lang r u \<Longrightarrow> \<exists>g'. (rest, g') \<in> set (ms r (u @ rest, g))"
proof (induction r arbitrary: u rest g)
  case Eps
  then show ?case by simp
next
  case (Atom a)
  then show ?case by (auto split: list.splits)
next
  case (Plus a)
  then have "rest \<in> set (tl (star_lazy a (u @ rest)))"
    by (simp add: tl_star_lazy_complete)
  then have "(rest, g) \<in> set (ms (Plus a) (u @ rest, g))"
    by (simp add: image_iff)
  then show ?case by blast
next
  case (PlusLazy a)
  then have "rest \<in> set (tl (star_lazy a (u @ rest)))"
    by (simp add: tl_star_lazy_complete)
  then have "(rest, g) \<in> set (ms (PlusLazy a) (u @ rest, g))"
    by (simp add: image_iff)
  then show ?case by blast
next
  case (StarLazy a)
  then have "rest \<in> set (star_lazy a (u @ rest))"
    by (simp add: star_lazy_complete)
  then have "(rest, g) \<in> set (ms (StarLazy a) (u @ rest, g))"
    by (simp add: image_iff)
  then show ?case by blast
next
  case (Then r1 r2)
  from Then.prems obtain u1 u2 where u: "u = u1 @ u2" "lang r1 u1" "lang r2 u2"
    unfolding lang_Then by blast
  from Then.IH(1) [OF u(2), of "u2 @ rest" g] obtain g1 where
    m1: "(u2 @ rest, g1) \<in> set (ms r1 (u1 @ u2 @ rest, g))"
    by blast
  from Then.IH(2) [OF u(3), of rest g1] obtain g2 where
    m2: "(rest, g2) \<in> set (ms r2 (u2 @ rest, g1))"
    by blast
  from m1 m2 have "(rest, g2) \<in> set (ms (Then r1 r2) (u @ rest, g))"
    by (auto simp: u(1))
  then show ?case by blast
next
  case (Group n r)
  from Group.prems have "lang r u"
    by simp
  from Group.IH [OF this, of rest g] obtain g' where "(rest, g') \<in> set (ms r (u @ rest, g))"
    by blast
  then have "(rest, set_group g' n (take (length (u @ rest) - length rest) (u @ rest)))
               \<in> set (ms (Group n r) (u @ rest, g))"
    by force
  then show ?case by blast
qed

lemma set_group_keys: "map fst (set_group g n v) = map fst g"
  by (induction g) (auto simp: set_group_def)

lemma set_group_unset:
  "(k, None) \<in> set (set_group g n v) \<longleftrightarrow> (k, None) \<in> set g \<and> k \<noteq> n"
  by (force simp: set_group_def image_iff split: if_splits)

lemma ms_keys:
  "(s', g') \<in> set (ms r (s, g)) \<Longrightarrow> map fst g' = map fst g"
proof (induction r arbitrary: s g s' g')
  case (Atom a)
  then show ?case by (cases s) (auto split: if_splits)
next
  case (Then r1 r2)
  from Then.prems obtain s1 g1 where
    "(s1, g1) \<in> set (ms r1 (s, g))" "(s', g') \<in> set (ms r2 (s1, g1))"
    by auto
  with Then.IH show ?case by metis
next
  case (Group n r)
  from Group.prems obtain g0 where "(s', g0) \<in> set (ms r (s, g))"
    and "g' = set_group g0 n (take (length s - length s') s)"
    by auto
  with Group.IH show ?case by (simp add: set_group_keys)
qed auto

lemma ms_unset:
  "(s', g') \<in> set (ms r (s, g)) \<Longrightarrow> (k, None) \<in> set g' \<Longrightarrow>
     (k, None) \<in> set g \<and> k \<notin> groups r"
proof (induction r arbitrary: s g s' g')
  case (Atom a)
  then show ?case by (cases s) (auto split: if_splits)
next
  case (Then r1 r2)
  from Then.prems obtain s1 g1 where
    m: "(s1, g1) \<in> set (ms r1 (s, g))" "(s', g') \<in> set (ms r2 (s1, g1))"
    by auto
  from Then.IH(2) [OF m(2) Then.prems(2)] have "(k, None) \<in> set g1" "k \<notin> groups r2"
    by simp_all
  with Then.IH(1) [OF m(1)] show ?case by simp
next
  case (Group n r)
  from Group.prems obtain g0 where m: "(s', g0) \<in> set (ms r (s, g))"
    and g': "g' = set_group g0 n (take (length s - length s') s)"
    by auto
  from Group.prems(2) have "(k, None) \<in> set g0" "k \<noteq> n"
    by (simp_all add: g' set_group_unset)
  with Group.IH [OF m] show ?case by simp
qed auto

lemma search_from_Some:
  "search_from r g s = Some d \<Longrightarrow> \<exists>i s'. i \<le> length s \<and> (s', d) \<in> set (ms r (drop i s, g))"
proof (induction s)
  case Nil
  then show ?case by (auto split: list.splits)
next
  case (Cons c cs)
  show ?case
  proof (cases "ms r (c # cs, g)")
    case Nil
    with Cons.prems have "search_from r g cs = Some d"
      by simp
    from Cons.IH [OF this] obtain i s' where "i \<le> length cs" "(s', d) \<in> set (ms r (drop i cs, g))"
      by blast
    then have "Suc i \<le> length (c # cs) \<and> (s', d) \<in> set (ms r (drop (Suc i) (c # cs), g))"
      by simp
    then show ?thesis by blast
  next
    case (Cons p ps)
    with Cons.prems obtain s' where "p = (s', d)"
      by (cases p) auto
    with Cons have "0 \<le> length (c # cs) \<and> (s', d) \<in> set (ms r (drop 0 (c # cs), g))"
      by simp
    then show ?thesis by blast
  qed
qed

lemma search_from_None:
  "search_from r g s = None \<longleftrightarrow> (\<forall>i\<le>length s. ms r (drop i s, g) = [])"
proof (induction s)
  case Nil
  then show ?case by (auto split: list.splits)
next
  case (Cons c cs)
  have "(\<forall>i\<le>length (c # cs). ms r (drop i (c # cs), g) = [])
          \<longleftrightarrow> ms r (c # cs, g) = [] \<and> (\<forall>i\<le>length cs. ms r (drop i cs, g) = [])"
    (is "?L \<longleftrightarrow> ?R")
  proof
    assume L: ?L
    then have "ms r (drop 0 (c # cs), g) = []"
      by blast
    moreover have "\<forall>i\<le>length cs. ms r (drop i cs, g) = []"
    proof (intro allI impI)
      fix i
      assume "i \<le> length cs"
      then have "Suc i \<le> length (c # cs)"
        by simp
      with L have "ms r (drop (Suc i) (c # cs), g) = []"
        by blast
      then show "ms r (drop i cs, g) = []"
        by simp
    qed
    ultimately show ?R by simp
  next
    assume R: ?R
    show ?L
    proof (intro allI impI)
      fix i
      assume i: "i \<le> length (c # cs)"
      show "ms r (drop i (c # cs), g) = []"
      proof (cases i)
        case 0
        with R show ?thesis by simp
      next
        case (Suc j)
        with i R show ?thesis by simp
      qed
    qed
  qed
  with Cons.IH show ?case
    by (simp split: list.splits)
qed

lemma search_from_found:
  "search_from r g s \<noteq> None \<longleftrightarrow> (\<exists>pre mid post. s = pre @ mid @ post \<and> lang r mid)"
proof
  assume "search_from r g s \<noteq> None"
  then obtain d where "search_from r g s = Some d"
    by blast
  from search_from_Some [OF this] obtain i s' where "(s', d) \<in> set (ms r (drop i s, g))"
    by blast
  from ms_sound [OF this] obtain u where u: "drop i s = u @ s'" "lang r u"
    by blast
  have "s = take i s @ drop i s"
    by simp
  with u have "s = take i s @ u @ s' \<and> lang r u"
    by simp
  then show "\<exists>pre mid post. s = pre @ mid @ post \<and> lang r mid"
    by blast
next
  assume "\<exists>pre mid post. s = pre @ mid @ post \<and> lang r mid"
  then obtain pre mid post where s: "s = pre @ mid @ post" and l: "lang r mid"
    by blast
  from ms_complete [OF l, of post g] have "ms r (drop (length pre) s, g) \<noteq> []"
    by (auto simp: s)
  moreover have "length pre \<le> length s"
    by (simp add: s)
  ultimately show "search_from r g s \<noteq> None"
    unfolding search_from_None by blast
qed

lemma lang_cat_Cons: "lang (cat (r # rs)) s \<longleftrightarrow> (\<exists>u v. s = u @ v \<and> lang r u \<and> lang (cat rs) v)"
  by (simp add: cat_def lang_Then del: lang.simps(6))

lemma lang_cat_Nil: "lang (cat []) s \<longleftrightarrow> s = []"
  by (simp add: cat_def)

lemma lang_cat_member:
  "lang (cat rs) s \<Longrightarrow> r \<in> set rs \<Longrightarrow> \<exists>a u b. s = a @ u @ b \<and> lang r u"
proof (induction rs arbitrary: s)
  case Nil
  then show ?case by simp
next
  case (Cons r0 rs)
  from Cons.prems(1) obtain u v where s: "s = u @ v" and l: "lang r0 u" "lang (cat rs) v"
    unfolding lang_cat_Cons by blast
  show ?case
  proof (cases "r = r0")
    case True
    with s l have "s = [] @ u @ v \<and> lang r u"
      by simp
    then show ?thesis by blast
  next
    case False
    with Cons.prems(2) have "r \<in> set rs"
      by simp
    from Cons.IH [OF l(2) this] obtain a w b where "v = a @ w @ b" "lang r w"
      by blast
    with s have "s = (u @ a) @ w @ b \<and> lang r w"
      by simp
    then show ?thesis by blast
  qed
qed

lemma lang_Atom: "lang (Atom a) u \<longleftrightarrow> (\<exists>c. u = [c] \<and> atom_ok a c)"
proof (cases u)
  case Nil
  then show ?thesis by simp
next
  case (Cons c cs)
  then show ?thesis by (cases cs) simp_all
qed

lemma lang_lit: "lang (lit t) s \<longleftrightarrow> length s = length t \<and> list_all2 (\<lambda>c a. lower c = lower a) s t"
proof (induction t arbitrary: s)
  case Nil
  then show ?case by (simp add: lit_def)
next
  case (Cons a t)
  have "lang (lit (a # t)) s \<longleftrightarrow> (\<exists>u v. s = u @ v \<and> lang (Atom (Chr a)) u \<and> lang (lit t) v)"
    by (simp add: lit_def lang_Then del: lang.simps)
  also have "\<dots> \<longleftrightarrow> (\<exists>c v. s = c # v \<and> lower c = lower a \<and> lang (lit t) v)"
  proof
    assume "\<exists>u v. s = u @ v \<and> lang (Atom (Chr a)) u \<and> lang (lit t) v"
    then show "\<exists>c v. s = c # v \<and> lower c = lower a \<and> lang (lit t) v"
      unfolding lang_Atom by auto
  next
    assume "\<exists>c v. s = c # v \<and> lower c = lower a \<and> lang (lit t) v"
    then obtain c v where "s = [c] @ v" "lang (Atom (Chr a)) [c]" "lang (lit t) v"
      by auto
    then show "\<exists>u v. s = u @ v \<and> lang (Atom (Chr a)) u \<and> lang (lit t) v"
      by blast
  qed
  finally show ?case
    using Cons.IH by (cases s) auto
qed

lemma lang_lit_self: "lang (lit t) t"
  by (simp add: lang_lit list_all2_same)

lemma groups_lit: "groups (lit t) = {}"
  by (induction t) (simp_all add: lit_def)

lemma groups_cat: "groups (cat rs) = (\<Union>r\<in>set rs. groups r)"
  by (induction rs) (simp_all add: cat_def)

lemma groups_TEGRAPATTERN: "groups TEGRAPATTERN = set group_names"
  by (auto simp: TEGRAPATTERN_def seg_ram_def seg_cpu_def seg_emc_def seg_gr3d_def seg_gpu_def
        groups_cat groups_lit group_names_def)

lemma parse_line_populated:
  assumes "parse_line line = Some d"
  shows "populated d"
proof -
  from assms search_from_Some obtain i s' where
    m: "(s', d) \<in> set (ms TEGRAPATTERN (drop i line, unset_groups))"
    unfolding parse_line_def by blast
  from ms_keys [OF m] have keys: "map fst d = group_names"
    by (simp add: unset_groups_def comp_def)
  have "v \<noteq> None" if "(k, v) \<in> set d" for k v
  proof
    assume "v = None"
    with that ms_unset [OF m, of k] have "(k, None) \<in> set unset_groups" "k \<notin> groups TEGRAPATTERN"
      by simp_all
    then show False
      by (auto simp: groups_TEGRAPATTERN unset_groups_def)
  qed
  then have "list_all (\<lambda>(k, v). v \<noteq> None) d"
    by (auto simp: list_all_iff)
  with keys show ?thesis
    by (simp add: populated_def)
qed

lemma segment_needed:
  assumes "seg \<in> set segments" and "search_from seg g line = None"
  shows "parse_line line = None"
proof (rule ccontr)
  assume "parse_line line \<noteq> None"
  then obtain pre mid post where line: "line = pre @ mid @ post" and l: "lang TEGRAPATTERN mid"
    unfolding parse_line_def search_from_found by blast
  from assms(1) have "seg \<in> set [seg_ram, StarLazy Dot, seg_cpu, StarLazy Dot, seg_emc,
      StarLazy Dot, seg_gr3d, StarLazy Dot, StarLazy Dot, seg_gpu]"
    by (auto simp: segments_def)
  from lang_cat_member [OF l [unfolded TEGRAPATTERN_def] this]
  obtain a u b where "mid = a @ u @ b" "lang seg u"
    by blast
  with line have "line = (pre @ a) @ u @ (b @ post) \<and> lang seg u"
    by simp
  then have "search_from seg g line \<noteq> None"
    unfolding search_from_found by blast
  with assms(2) show False by simp
qed

lemma lang_cat_list: "list_all2 lang rs us \<Longrightarrow> lang (cat rs) (concat us)"
proof (induction rs us rule: list_all2_induct)
  case Nil
  then show ?case by (simp add: lang_cat_Nil)
next
  case (Cons r rs u us)
  then have "concat (u # us) = u @ concat us \<and> lang r u \<and> lang (cat rs) (concat us)"
    by simp
  then show ?case
    unfolding lang_cat_Cons by blast
qed

lemma lang_seg_emc:
  assumes "sep = CHR ''_'' \<or> sep = CHR '' ''"
    and "ws \<noteq> []" "list_all is_space ws"
    and "p \<noteq> []" "list_all is_digit p" and "f \<noteq> []" "list_all is_digit f"
  shows "lang seg_emc (''EMC'' @ sep # ''FREQ'' @ ws @ p @ ''%@'' @ f)"
proof -
  have "lang seg_emc (concat [''EMC'', [sep], ''FREQ'', ws, p, ''%@'', f])"
    unfolding seg_emc_def
    using assms by (intro lang_cat_list) (auto simp: lang_lit_self list_all_iff)
  then show ?thesis by simp
qed

lemma lang_seg_gr3d:
  assumes "sep = CHR ''_'' \<or> sep = CHR '' ''"
    and "ws \<noteq> []" "list_all is_space ws"
    and "p \<noteq> []" "list_all is_digit p" and "f \<noteq> []" "list_all is_digit f"
  shows "lang seg_gr3d (''GR3D'' @ sep # ''FREQ'' @ ws @ p @ ''%@'' @ f)"
proof -
  have "lang seg_gr3d (concat [''GR3D'', [sep], ''FREQ'', ws, p, ''%@'', f])"
    unfolding seg_gr3d_def
    using assms by (intro lang_cat_list) (auto simp: lang_lit_self list_all_iff)
  then show ?thesis by simp
qed

lemma parse_line_expected:
  assumes "lang seg_ram a" "lang seg_cpu b" "lang seg_emc c" "lang seg_gr3d d" "lang seg_gpu e"
    and "CHR 0x0A \<notin> set (f1 @ f2 @ f3 @ f4)"
  shows "\<exists>smp. parse_line (pre @ a @ f1 @ b @ f2 @ c @ f3 @ d @ f4 @ e @ post) = Some smp
           \<and> populated smp"
proof -
  have "lang TEGRAPATTERN (concat [a, f1, b, f2, c, f3, d, f4, [], e])"
    unfolding TEGRAPATTERN_def
    using assms by (intro lang_cat_list) (auto simp: list_all_iff)
  then have "lang TEGRAPATTERN (a @ f1 @ b @ f2 @ c @ f3 @ d @ f4 @ e)"
    by simp
  then have "\<exists>p m q. pre @ a @ f1 @ b @ f2 @ c @ f3 @ d @ f4 @ e @ post = p @ m @ q
               \<and> lang TEGRAPATTERN m"
    by (intro exI [of _ pre] exI [of _ "a @ f1 @ b @ f2 @ c @ f3 @ d @ f4 @ e"] exI [of _ post])
       simp
  then have "parse_line (pre @ a @ f1 @ b @ f2 @ c @ f3 @ d @ f4 @ e @ post) \<noteq> None"
    unfolding parse_line_def search_from_found .
  then obtain smp where "parse_line (pre @ a @ f1 @ b @ f2 @ c @ f3 @ d @ f4 @ e @ post) = Some smp"
    by blast
  with parse_line_populated [OF this] show ?thesis
    by blast
qed

text \<open>
  Claim C3. Five statements about \<^verbatim>\<open>TEGRAPATTERN\<close> searched in a line. (1) A line
  made of a text for each of the five segments of the pattern, in order, with anything
  but a newline between them and anything before and after, yields a sample with every
  group set. (2) The EMC and GR3D segments accept the label written with an underscore
  or with a space. (3) Whenever the search yields a sample, the sample has the eight
  groups in order and none of them is unset. (4) When one of the five segments,
  searched on its own, is found nowhere in the line, the search yields no match. (5) The
  search yields a match exactly when some part of the line belongs to the language of the
  pattern.
\<close>

theorem parser_all_or_nothing:
  "(lang seg_ram a \<and> lang seg_cpu b \<and> lang seg_emc c \<and> lang seg_gr3d d \<and> lang seg_gpu e
      \<and> CHR 0x0A \<notin> set (f1 @ f2 @ f3 @ f4) \<longrightarrow>
      (\<exists>smp. parse_line (pre @ a @ f1 @ b @ f2 @ c @ f3 @ d @ f4 @ e @ post) = Some smp
             \<and> populated smp))
   \<and> ((sep = CHR ''_'' \<or> sep = CHR '' '') \<and> ws \<noteq> [] \<and> list_all is_space ws
        \<and> p \<noteq> [] \<and> list_all is_digit p \<and> f \<noteq> [] \<and> list_all is_digit f \<longrightarrow>
      lang seg_emc (''EMC'' @ sep # ''FREQ'' @ ws @ p @ ''%@'' @ f)
      \<and> lang seg_gr3d (''GR3D'' @ sep # ''FREQ'' @ ws @ p @ ''%@'' @ f))
   \<and> (\<forall>smp. parse_line line = Some smp \<longrightarrow> populated smp)
   \<and> (list_ex (\<lambda>seg. search_from seg [] line = None) segments \<longrightarrow> parse_line line = None)
   \<and> (parse_line line \<noteq> None
        \<longleftrightarrow> (\<exists>pre mid post. line = pre @ mid @ post \<and> lang TEGRAPATTERN mid))"
proof -
  have "parse_line line = None" if "list_ex (\<lambda>seg. search_from seg [] line = None) segments"
    using that segment_needed [of _ "[]" line] by (auto simp: list_ex_iff)
  then show ?thesis
    using parse_line_expected [of a b c d e f1 f2 f3 f4 pre post]
      lang_seg_emc [of sep ws p f] lang_seg_gr3d [of sep ws p f]
      parse_line_populated [of line]
      search_from_found [of TEGRAPATTERN unset_groups line]
    unfolding parse_line_def [symmetric]
    by blast
qed

theorem parser_all_or_nothing_witness:
  "lang seg_ram ''RAM 1/2MB'' \<and> lang seg_cpu ''cpu [a]'' \<and> lang seg_gpu ''GPU@7.5C''
   \<and> lang seg_emc ''EMC_FREQ 3%@4'' \<and> lang seg_gr3d ''GR3D FREQ 5%@6''
   \<and> parse_line ''RAM 1/2MB cpu [a] EMC_FREQ 3%@4 GR3D FREQ 5%@6 GPU@7.5C''
       = Some [(''ram_used'', Some ''1''), (''ram_total'', Some ''2''), (''cpu'', Some ''a''),
               (''emc_pct'', Some ''3''), (''emc_mhz'', Some ''4''), (''gr3d_pct'', Some ''5''),
               (''gr3d_mhz'', Some ''6''), (''gpu_temp'', Some ''7.5'')]
   \<and> populated [(''ram_used'', Some ''1''), (''ram_total'', Some ''2''), (''cpu'', Some ''a''),
               (''emc_pct'', Some ''3''), (''emc_mhz'', Some ''4''), (''gr3d_pct'', Some ''5''),
               (''gr3d_mhz'', Some ''6''), (''gpu_temp'', Some ''7.5'')]
   \<and> (\<exists>smp. parse_line ''RAM 1/2MB cpu [a] EMC_FREQ 3%@4 GR3D FREQ 5%@6 GPU@7.5C'' = Some smp
          \<and> populated smp)
   \<and> list_ex (\<lambda>seg. search_from seg [] ''RAM 1/2MB CPU [a] EMC_FREQ 3%@4 GPU@7.5C'' = None) segments
   \<and> parse_line ''RAM 1/2MB CPU [a] EMC_FREQ 3%@4 GPU@7.5C'' = None"
proof -
  let ?smp = "[(''ram_used'', Some ''1''), (''ram_total'', Some ''2''), (''cpu'', Some ''a''),
               (''emc_pct'', Some ''3''), (''emc_mhz'', Some ''4''), (''gr3d_pct'', Some ''5''),
               (''gr3d_mhz'', Some ''6''), (''gpu_temp'', Some ''7.5'')]"
  have ram: "lang seg_ram ''RAM 1/2MB''"
    by code_simp
  have cpu: "lang seg_cpu ''cpu [a]''"
    by code_simp
  have gpu: "lang seg_gpu ''GPU@7.5C''"
    by code_simp
  have full: "parse_line ''RAM 1/2MB cpu [a] EMC_FREQ 3%@4 GR3D FREQ 5%@6 GPU@7.5C'' = Some ?smp"
    by code_simp
  have miss: "list_ex (\<lambda>seg. search_from seg [] ''RAM 1/2MB CPU [a] EMC_FREQ 3%@4 GPU@7.5C'' = None)
                segments"
    by code_simp
  have sp: "list_all is_space '' ''" and d3: "list_all is_digit ''3''"
    and d4: "list_all is_digit ''4''" and d5: "list_all is_digit ''5''"
    and d6: "list_all is_digit ''6''"
    by code_simp+
  from parser_all_or_nothing [of _ _ _ _ _ _ _ _ _ _ _ "CHR ''_''" "'' ''" "''3''" "''4''"] sp d3 d4
  have emc: "lang seg_emc ''EMC_FREQ 3%@4''"
    by simp
  from parser_all_or_nothing [of _ _ _ _ _ _ _ _ _ _ _ "CHR '' ''" "'' ''" "''5''" "''6''"] sp d5 d6
  have gr3d: "lang seg_gr3d ''GR3D FREQ 5%@6''"
    by simp
  from parser_all_or_nothing
         [of _ _ _ _ _ _ _ _ _ _ _ _ _ _ _
             "''RAM 1/2MB cpu [a] EMC_FREQ 3%@4 GR3D FREQ 5%@6 GPU@7.5C''"] full
  have pop: "populated ?smp"
    by blast
  from parser_all_or_nothing
         [of _ _ _ _ _ _ _ _ _ _ _ _ _ _ _ "''RAM 1/2MB CPU [a] EMC_FREQ 3%@4 GPU@7.5C''"] miss
  have none: "parse_line ''RAM 1/2MB CPU [a] EMC_FREQ 3%@4 GPU@7.5C'' = None"
    by blast
  from parser_all_or_nothing
         [of "''RAM 1/2MB''" "''cpu [a]''" "''EMC_FREQ 3%@4''" "''GR3D FREQ 5%@6''" "''GPU@7.5C''"
             "'' ''" "'' ''" "'' ''" "'' ''" "[]" "[]"]
       ram cpu emc gr3d gpu
  have exp: "\<exists>smp. parse_line ''RAM 1/2MB cpu [a] EMC_FREQ 3%@4 GR3D FREQ 5%@6 GPU@7.5C'' = Some smp
          \<and> populated smp"
    by simp
  from ram cpu gpu emc gr3d full pop exp miss none show ?thesis
    by (simp only: simp_thms)
qed

end
